theory Spec2Isabelle
  imports Main "HOL-Library.AList"
begin

section \<open>JavaScript values used by index.mjs\<close>

text \<open>
  A JavaScript string is a sequence of UTF-16 code units; every character the program
  names lies in the Basic Multilingual Plane, so one character is one code unit, written
  here as a natural number. \<open>js\<close> turns an ASCII literal into such a string.
\<close>

type_synonym jschar = nat
type_synonym jsstring = "jschar list"

definition js :: "string \<Rightarrow> jsstring" where
  "js s = map of_char s"

text \<open>
  An element of a JavaScript array of numbers: a number, or \<open>undefined\<close>, which is also
  what a hole of \<open>Array(n)\<close> yields when the array is spread or iterated.
\<close>

datatype jsval = Undefined | Num int

text \<open>
  \<open>Buffer.from(array)\<close> stores every element as an unsigned byte: a number is taken
  modulo 256, and \<open>undefined\<close> (not a number) becomes 0.
\<close>

fun to_uint8 :: "jsval \<Rightarrow> nat" where
  "to_uint8 Undefined = 0"
| "to_uint8 (Num n) = nat (n mod 256)"

definition Buffer_from :: "jsval list \<Rightarrow> nat list" where
  "Buffer_from xs = map to_uint8 xs"

text \<open>
  Exceptions are values. A \<open>RangeError\<close> carries the fixed text of its message (the
  interpolated byte values are left out); the other two kinds are raised by the language
  itself: \<open>ReferenceError\<close> for a name that is not defined and for \<open>this\<close> read in a
  derived constructor before \<open>super()\<close>, \<open>TypeError\<close> for calling what is not a function.
\<close>

datatype js_error = RangeError string | ReferenceError string | TypeError string

text \<open>\<open>a > b\<close> on array elements: \<open>undefined\<close> converts to NaN, and every comparison with NaN is false.\<close>

fun js_gt :: "jsval \<Rightarrow> jsval \<Rightarrow> bool" where
  "js_gt (Num a) (Num b) = (a > b)"
| "js_gt _ _ = False"

text \<open>
  A plain object with its own properties in insertion order is an association list;
  \<open>obj[k] = v\<close> is \<open>AList.update k v\<close>, \<open>k in obj\<close> and \<open>obj[k]\<close> read \<open>map_of obj k\<close>,
  \<open>Object.keys(obj)\<close> is \<open>map fst obj\<close>. (JavaScript lists integer-like keys first; the
  tables below are built from injective data, so the order of the keys does not change them.)
\<close>

type_synonym ('k, 'v) obj = "('k \<times> 'v) list"

definition Object_keys :: "('k, 'v) obj \<Rightarrow> 'k list" where
  "Object_keys ob = map fst ob"

definition has_key :: "'k \<Rightarrow> ('k, 'v) obj \<Rightarrow> bool" where
  "has_key k ob = (map_of ob k \<noteq> None)"

subsection \<open>String methods\<close>

text \<open>
  \<open>String.prototype.toUpperCase\<close> on code units below 128, which is all the program passes
  to it (the three constants and the \<open>[A-Za-z]?\<close> group of the regular expression).
\<close>

definition toUpperCase :: "jsstring \<Rightarrow> jsstring" where
  "toUpperCase s = map (\<lambda>c. if 97 \<le> c \<and> c \<le> 122 then c - 32 else c) s"

text \<open>\<open>s.split(sep)\<close> for a separator of one character: always at least one piece.\<close>

fun js_split :: "jschar \<Rightarrow> jsstring \<Rightarrow> jsstring list" where
  "js_split sep [] = [[]]"
| "js_split sep (c # cs) =
     (if c = sep then [] # js_split sep cs
      else (case js_split sep cs of l # ls \<Rightarrow> (c # l) # ls | [] \<Rightarrow> [[c]]))"

text \<open>\<open>lines.join(sep)\<close>.\<close>

fun js_join :: "jsstring \<Rightarrow> jsstring list \<Rightarrow> jsstring" where
  "js_join sep [] = []"
| "js_join sep [l] = l"
| "js_join sep (l # ls) = l @ sep @ js_join sep ls"

text \<open>
  \<open>s.replace(pat, rep)\<close> with a string pattern: only the first occurrence of \<open>pat\<close> is
  replaced. (Neither replacement string of the program contains \<open>$\<close>.)
\<close>

fun js_replace :: "jsstring \<Rightarrow> jsstring \<Rightarrow> jsstring \<Rightarrow> jsstring" where
  "js_replace pat rep [] = (if pat = [] then rep else [])"
| "js_replace pat rep (c # cs) =
     (if take (length pat) (c # cs) = pat then rep @ drop (length pat) (c # cs)
      else c # js_replace pat rep cs)"

text \<open>
  \<open>s.replace(/ +$/)\<close>, as Page.fromBytes calls it, with no second argument: the
  replacement is \<open>undefined\<close>, which \<open>replace\<close> converts to the string "undefined". The
  pattern matches the maximal run of spaces at the end of \<open>s\<close>, if there is one.
\<close>

definition replace_trailing_spaces :: "jsstring \<Rightarrow> jsstring" where
  "replace_trailing_spaces s =
     (let n = length (takeWhile (\<lambda>c. c = 0x20) (rev s))
      in if n = 0 then s else take (length s - n) s @ js ''undefined'')"

text \<open>
  Number to string, as \<open>+\<close> with a string does it, for an integer (exact below \<open>10^21\<close> in
  absolute value, where JavaScript still prints plain decimal digits).
\<close>

fun dec_digits :: "nat \<Rightarrow> jsstring" where
  "dec_digits n = (if n < 10 then [48 + n] else dec_digits (n div 10) @ [48 + n mod 10])"

declare dec_digits.simps [simp del]

definition Number_toString :: "int \<Rightarrow> jsstring" where
  "Number_toString n = (if n < 0 then 0x2D # dec_digits (nat (- n)) else dec_digits (nat n))"

text \<open>
  \<open>parseInt\<close> on a run of decimal digits, the only argument Page.fromStr passes: the
  number the digits denote. This is what \<open>parseInt\<close> returns as long as that number is
  below \<open>2^53\<close>; above, JavaScript returns the nearest double, which this function does
  not model, and every statement about a parsed delay is made for runs below that bound.
\<close>

definition parseInt :: "jsstring \<Rightarrow> int" where
  "parseInt s = int (foldl (\<lambda>acc c. 10 * acc + (c - 48)) 0 s)"

section \<open>PageAnimate\<close>

text \<open>
  A PageAnimate object holds one private string and is only ever read through
  \<open>toString()\<close>, which returns it; the object is modelled by that string. (Page.fromBytes
  stores the string of \<open>_ANIMATE_DECODING\<close> itself in the page, whose \<open>toString()\<close> is again
  that string.) The constructor does nothing but convert to upper case.
\<close>

type_synonym PageAnimate = jsstring

definition new_PageAnimate :: "jsstring \<Rightarrow> PageAnimate" where
  "new_PageAnimate type = toUpperCase type"

definition NONE :: PageAnimate where
  "NONE = new_PageAnimate (js ''N'')"

definition VSCROLL :: PageAnimate where
  "VSCROLL = new_PageAnimate (js ''V'')"

definition HSCROLL :: PageAnimate where
  "HSCROLL = new_PageAnimate (js ''H'')"

section \<open>Page: constants\<close>

definition ascii_chars :: jsstring where
  "ascii_chars = js ('' !#$&'' @ [CHR 0x27] @ ''()*+,-./0123456789:;<=>?ABCDEFGHIJKLMNOPQRSTUVWXYZ''
                      @ [CHR 0x5C] @ ''abcdefghijklmnopqrstuvwxyz'')"

text \<open>\<open>_TEXT_ENCODING\<close>: every character of the literal mapped to its char code, then the six glyphs.\<close>

definition TEXT_ENCODING :: "(jschar, nat) obj" where
  "TEXT_ENCODING =
     fold (\<lambda>(k, v) acc. AList.update k v acc)
       [(0x00B7, 0x8F), (0x2022, 0xD3), (0x2500, 0x97), (0x2501, 0xD2), (0x2588, 0x5F), (0x2594, 0xA3)]
       (fold (\<lambda>e acc. AList.update e e acc) ascii_chars [])"

text \<open>\<open>_TEXT_DECODING\<close>: the encoding reversed key by key, then the three extra bytes.\<close>

definition TEXT_DECODING :: "(nat, jschar) obj" where
  "TEXT_DECODING =
     fold (\<lambda>(k, v) acc. AList.update k v acc)
       [(0x98, 0x2500), (0xA4, 0x2594), (0xA5, 0x2594)]
       (fold (\<lambda>e acc. AList.update (the (map_of TEXT_ENCODING e)) e acc) (Object_keys TEXT_ENCODING) [])"

definition ATTRS_SEP :: jsstring where
  "ATTRS_SEP = js ''^''"

definition RIGHT_CHAR_DECODED :: jsstring where
  "RIGHT_CHAR_DECODED = js ''~''"

definition RIGHT_CHAR_ENCODED :: jsstring where
  "RIGHT_CHAR_ENCODED = [0x5C, 0x52]"

definition NEWLINE_CHAR :: jschar where
  "NEWLINE_CHAR = 0x5F"

definition NEWLINE_BYTESEQ :: nat where
  "NEWLINE_BYTESEQ = 0x0A"

definition ANIMATE_ENCODING :: "(jsstring, nat) obj" where
  "ANIMATE_ENCODING =
     fold (\<lambda>(k, v) acc. AList.update k v acc) [(NONE, 0x00), (VSCROLL, 0x1D), (HSCROLL, 0x2F)] []"

definition ANIMATE_DECODING :: "(nat, jsstring) obj" where
  "ANIMATE_DECODING =
     fold (\<lambda>e acc. AList.update (the (map_of ANIMATE_ENCODING e)) e acc) (Object_keys ANIMATE_ENCODING) []"

subsection \<open>The regular expression of the string form\<close>

text \<open>
  \<open>/^(?:(?<animate>[A-Za-z]?)(?<delay>\d*)\^)?(?<text>.*)$/s\<close>. The optional prefix is
  tried greedily: a letter if the string starts with one, then the longest run of digits,
  then \<open>^\<close>. When no \<open>^\<close> follows, backtracking cannot help (giving back a digit or the
  letter leaves a digit or a letter where \<open>^\<close> is required), so the prefix is skipped, its
  two groups are \<open>undefined\<close> (\<open>None\<close>) and \<open>text\<close> is the whole string. With the flag
  \<open>s\<close>, \<open>.*\<close> takes everything that is left, so the expression matches every string.
\<close>

definition is_letter :: "jschar \<Rightarrow> bool" where
  "is_letter c = (65 \<le> c \<and> c \<le> 90 \<or> 97 \<le> c \<and> c \<le> 122)"

definition is_digit :: "jschar \<Rightarrow> bool" where
  "is_digit c = (48 \<le> c \<and> c \<le> 57)"

record groups =
  group_animate :: "jsstring option"
  group_delay :: "jsstring option"
  group_text :: jsstring

definition STR_RE_match :: "jsstring \<Rightarrow> groups" where
  "STR_RE_match string =
     (let a = (case string of [] \<Rightarrow> [] | c # _ \<Rightarrow> if is_letter c then [c] else []);
          d = takeWhile is_digit (drop (length a) string)
      in (case dropWhile is_digit (drop (length a) string) of
            [] \<Rightarrow> \<lparr>group_animate = None, group_delay = None, group_text = string\<rparr>
          | c # t \<Rightarrow>
              if c = 0x5E then \<lparr>group_animate = Some a, group_delay = Some d, group_text = t\<rparr>
              else \<lparr>group_animate = None, group_delay = None, group_text = string\<rparr>))"

text \<open>\<open>if (g)\<close> on a group: an \<open>undefined\<close> group and the empty string are both falsy.\<close>

definition truthy :: "jsstring option \<Rightarrow> bool" where
  "truthy g = (case g of None \<Rightarrow> False | Some s \<Rightarrow> s \<noteq> [])"

section \<open>Page\<close>

text \<open>The three private fields, named after their getters. The constructor only stores them.\<close>

record Page =
  getAnimate :: PageAnimate
  getDelay :: int
  getText :: jsstring

definition new_Page :: "PageAnimate \<Rightarrow> int \<Rightarrow> jsstring \<Rightarrow> Page" where
  "new_Page animate delay text = \<lparr>getAnimate = animate, getDelay = delay, getText = text\<rparr>"

definition fromStr :: "jsstring \<Rightarrow> PageAnimate \<Rightarrow> int \<Rightarrow> Page" where
  "fromStr string default_animate default_delay =
     (let match = STR_RE_match string;
          animate = (if truthy (group_animate match)
                     then new_PageAnimate (the (group_animate match)) else default_animate);
          delay = (if truthy (group_delay match)
                   then parseInt (the (group_delay match)) else default_delay)
      in new_Page animate delay (group_text match))"

definition toString :: "Page \<Rightarrow> jsstring" where
  "toString p = getAnimate p @ Number_toString (getDelay p) @ ATTRS_SEP @ getText p"

subsection \<open>encodeText and decodeText\<close>

text \<open>
  The set \<open>badChars\<close>, in insertion order. A Set has a \<open>size\<close>; \<open>length\<close> is not one of
  its properties, so \<open>badChars.length\<close> reads \<open>undefined\<close>.
\<close>

definition Set_add :: "'a \<Rightarrow> 'a list \<Rightarrow> 'a list" where
  "Set_add x s = (if x \<in> set s then s else s @ [x])"

definition Set_length :: "'a list \<Rightarrow> jsval" where
  "Set_length s = Undefined"

text \<open>
  The loop of encodeText over the characters: \<open>bytesOut[i]\<close> is set for a character of the
  table and stays a hole otherwise.
\<close>

fun encodeText_loop :: "jsstring \<Rightarrow> jsval list \<Rightarrow> jschar list \<Rightarrow> jsval list \<times> jschar list" where
  "encodeText_loop [] bytesOut badChars = (bytesOut, badChars)"
| "encodeText_loop (char # rest) bytesOut badChars =
     (if has_key char TEXT_ENCODING
      then encodeText_loop rest (bytesOut @ [Num (int (the (map_of TEXT_ENCODING char)))]) badChars
      else encodeText_loop rest (bytesOut @ [Undefined]) (Set_add char badChars))"

text \<open>
  The message of the throw calls \<open>join\<close> on the iterator \<open>badChars.entries()\<close>, which has
  no such method, so reaching it would raise a TypeError.
\<close>

definition encodeText :: "jsstring \<Rightarrow> js_error + jsval list" where
  "encodeText text =
     (case encodeText_loop text [] [] of (bytesOut, badChars) \<Rightarrow>
        if js_gt (Set_length badChars) (Num 0)
        then Inl (TypeError ''badChars.entries(...).join is not a function'')
        else Inr bytesOut)"

fun decodeText_loop :: "nat list \<Rightarrow> jsstring \<Rightarrow> jsstring" where
  "decodeText_loop [] text = text"
| "decodeText_loop (byte # rest) text =
     (if has_key byte TEXT_DECODING
      then decodeText_loop rest (text @ [the (map_of TEXT_DECODING byte)])
      else decodeText_loop rest (text @ [0xFFFD]))"

definition decodeText :: "nat list \<Rightarrow> jsstring" where
  "decodeText bytes = decodeText_loop bytes []"

subsection \<open>toBytes\<close>

text \<open>\<open>lines.map(f)\<close> for an \<open>f\<close> that may throw: the first exception ends the map.\<close>

fun map_throw :: "('a \<Rightarrow> js_error + 'b) \<Rightarrow> 'a list \<Rightarrow> js_error + 'b list" where
  "map_throw f [] = Inr []"
| "map_throw f (x # xs) =
     (case f x of Inl e \<Rightarrow> Inl e
      | Inr y \<Rightarrow> (case map_throw f xs of Inl e \<Rightarrow> Inl e | Inr ys \<Rightarrow> Inr (y # ys)))"

definition toBytes :: "Page \<Rightarrow> js_error + nat list" where
  "toBytes p =
     (let animateByte = (case map_of ANIMATE_ENCODING (getAnimate p) of
                           None \<Rightarrow> Undefined | Some b \<Rightarrow> Num (int b));
          offsetByte = length (takeWhile (\<lambda>c. c = 0x5F) (getText p));
          delayByte = getDelay p
      in case map_throw (\<lambda>line. encodeText (js_replace RIGHT_CHAR_DECODED RIGHT_CHAR_ENCODED line))
                (js_split NEWLINE_CHAR (drop offsetByte (getText p))) of
           Inl e \<Rightarrow> Inl e
         | Inr encoded \<Rightarrow>
             Inr (Buffer_from
                   ([animateByte, Num (int offsetByte), Num delayByte, Num 0x00]
                    @ drop 1 (foldl (\<lambda>acc e. acc @ [Num 0x0A] @ e) [] encoded))))"

subsection \<open>fromBytes\<close>

text \<open>The right trim: \<open>while (rawText[rawText.length - 1] === 0x0A) rawText.pop()\<close>.\<close>

function pop_newlines :: "nat list \<Rightarrow> nat list" where
  "pop_newlines rawText =
     (if rawText \<noteq> [] \<and> last rawText = NEWLINE_BYTESEQ then pop_newlines (butlast rawText)
      else rawText)"
  by pat_completeness auto
termination
  by (relation "measure length") auto

declare pop_newlines.simps [simp del]

text \<open>The loop that cuts \<open>rawText\<close> into lines; \<open>lines.push(line)\<close> after it is the base case.\<close>

fun lines_loop :: "nat list \<Rightarrow> nat list list \<Rightarrow> nat list \<Rightarrow> nat list list" where
  "lines_loop [] lines line = lines @ [line]"
| "lines_loop (char # rest) lines line =
     (if char = NEWLINE_BYTESEQ then lines_loop rest (lines @ [line]) []
      else lines_loop rest lines (line @ [char]))"

text \<open>
  The input is a Buffer: a sequence of bytes. The message of the third throw reads
  \<open>bytes_in[3]\<close>, a name that is declared nowhere, and evaluating it raises a
  ReferenceError before the RangeError is constructed.
\<close>

definition fromBytes :: "nat list \<Rightarrow> js_error + Page" where
  "fromBytes bytes =
     (if length bytes < 4 then Inl (RangeError ''Not enough bytes for a Page'')
      else if \<not> has_key (bytes ! 0) ANIMATE_DECODING
      then Inl (RangeError ''Unexpected animate byte value at index 0'')
      else
        let animate = the (map_of ANIMATE_DECODING (bytes ! 0));
            offset = bytes ! 1;
            delay = bytes ! 2
        in if bytes ! 3 \<noteq> 0x00 then Inl (ReferenceError ''bytes_in is not defined'')
           else
             let rawText = pop_newlines (drop 4 bytes);
                 lines = lines_loop rawText [] [];
                 text = replicate offset NEWLINE_CHAR
                        @ js_join [NEWLINE_CHAR]
                            (map (\<lambda>line. js_replace RIGHT_CHAR_ENCODED RIGHT_CHAR_DECODED
                                            (replace_trailing_spaces (decodeText line))) lines)
             in Inr (new_Page animate (int delay) text))"

section \<open>Messages\<close>

text \<open>
  PingMessage and ResponseMessage are declared \<open>extends Message\<close>, and their constructors
  assign \<open>this.#unspecified_byte\<close> without calling \<open>super()\<close> first. In a derived class
  \<open>this\<close> is uninitialised until \<open>super()\<close> returns, so the first statement of either
  constructor raises a ReferenceError, whatever the arguments.
\<close>

record PingMessage =
  ping_unspecified_byte :: nat
  ping_address :: nat

record ResponseMessage =
  response_unspecified_byte :: nat
  response_address :: nat

definition this_before_super :: js_error where
  "this_before_super =
     ReferenceError ''Must call super constructor in derived class before accessing this''"

definition new_PingMessage :: "nat \<Rightarrow> nat \<Rightarrow> js_error + PingMessage" where
  "new_PingMessage unspecified_byte address = Inl this_before_super"

definition new_ResponseMessage :: "nat \<Rightarrow> nat \<Rightarrow> js_error + ResponseMessage" where
  "new_ResponseMessage unspecified_byte address = Inl this_before_super"

definition PingMessage_marker :: "nat \<Rightarrow> nat list" where
  "PingMessage_marker address = [address, 0x50]"

definition ResponseMessage_marker :: "nat \<Rightarrow> nat list" where
  "ResponseMessage_marker address = [address, 0x52]"

definition PingMessage_fromBytes :: "nat list \<Rightarrow> nat \<Rightarrow> js_error + PingMessage" where
  "PingMessage_fromBytes bytes address =
     (if length bytes < 3 then Inl (RangeError ''Unexpected end of data'')
      else if length bytes > 3 then Inl (RangeError ''Unexpected data'')
      else
        let expectedMarker = PingMessage_marker address
        in if \<not> (bytes ! 0 = expectedMarker ! 0 \<and> bytes ! 1 = expectedMarker ! 1)
           then Inl (RangeError ''Incorrect header for PingMessage'')
           else new_PingMessage (bytes ! 2) address)"

definition ResponseMessage_fromBytes :: "nat list \<Rightarrow> nat \<Rightarrow> js_error + ResponseMessage" where
  "ResponseMessage_fromBytes bytes address =
     (if length bytes < 4 then Inl (RangeError ''Unexpected end of data'')
      else if length bytes > 4 then Inl (RangeError ''Unexpected data'')
      else
        let expectedMarker = ResponseMessage_marker address
        in if \<not> (bytes ! 0 = expectedMarker ! 0 \<and> bytes ! 1 = expectedMarker ! 1)
           then Inl (RangeError ''Incorrect header for ResponseMessage'')
           else if bytes ! 3 \<noteq> 0x00 then Inl (RangeError ''Unexpected value at position 3'')
           else new_ResponseMessage (bytes ! 2) address)"

section \<open>Auxiliary definitions for the proofs\<close>

text \<open>What encodeText stores at one index, and what decodeText appends for one byte.\<close>

definition enc1 :: "jschar \<Rightarrow> jsval" where
  "enc1 c = (case map_of TEXT_ENCODING c of None \<Rightarrow> Undefined | Some b \<Rightarrow> Num (int b))"

definition dec1 :: "nat \<Rightarrow> jschar" where
  "dec1 b = (case map_of TEXT_DECODING b of None \<Rightarrow> 0xFFFD | Some c \<Rightarrow> c)"

text \<open>\<open>occurs pat s\<close>: the string \<open>pat\<close> occurs somewhere in \<open>s\<close>.\<close>

fun occurs :: "jsstring \<Rightarrow> jsstring \<Rightarrow> bool" where
  "occurs pat [] = (pat = [])"
| "occurs pat (c # cs) = (take (length pat) (c # cs) = pat \<or> occurs pat cs)"

text \<open>
  The lines that survive toBytes followed by fromBytes: at most one \<open>~\<close>, no escape \<open>\R\<close>
  written literally before it (or anywhere, when the line has no \<open>~\<close>), and no space at
  the end.
\<close>

definition round_trip_line :: "jsstring \<Rightarrow> bool" where
  "round_trip_line l =
     (length (filter (\<lambda>c. c = 0x7E) l) \<le> 1
      \<and> \<not> occurs RIGHT_CHAR_ENCODED (takeWhile (\<lambda>c. c \<noteq> 0x7E) l)
      \<and> (l = [] \<or> last l \<noteq> 0x20))"

text \<open>
  The replacement as the specification words it: every \<open>~\<close> of a line becomes the escape
  \<open>\R\<close>.
\<close>

definition replace_all_markers :: "jsstring \<Rightarrow> jsstring" where
  "replace_all_markers l = concat (map (\<lambda>c. if c = 0x7E then [0x5C, 0x52] else [c]) l)"

section \<open>The tables, written out\<close>

lemma update_fresh: "k \<notin> fst ` set al \<Longrightarrow> AList.update k v al = al @ [(k, v)]"
  by (induction al) auto

lemma fold_update_fresh:
  "distinct (map fst ps) \<Longrightarrow> fst ` set ps \<inter> fst ` set al = {} \<Longrightarrow>
   fold (\<lambda>(k, v) acc. AList.update k v acc) ps al = al @ ps"
proof (induction ps arbitrary: al)
  case Nil
  then show ?case by simp
next
  case (Cons p ps)
  obtain k v where p: "p = (k, v)" by (cases p)
  have "AList.update k v al = al @ [(k, v)]"
    using Cons.prems p by (intro update_fresh) auto
  moreover have "fst ` set ps \<inter> fst ` set (al @ [(k, v)]) = {}"
    using Cons.prems p by auto
  ultimately show ?case
    using Cons.IH [of "al @ [(k, v)]"] Cons.prems p by simp
qed

lemma fold_update_keys:
  "fold (\<lambda>e acc. AList.update (g e) (f e) acc) xs al
   = fold (\<lambda>(k, v) acc. AList.update k v acc) (map (\<lambda>e. (g e, f e)) xs) al"
  by (induction xs arbitrary: al) simp_all

lemma TEXT_ENCODING_eq:
  "TEXT_ENCODING = [(32, 32), (33, 33), (35, 35), (36, 36), (38, 38), (39, 39), (40, 40),
  (41, 41), (42, 42), (43, 43), (44, 44), (45, 45), (46, 46), (47, 47),
  (48, 48), (49, 49), (50, 50), (51, 51), (52, 52), (53, 53), (54, 54),
  (55, 55), (56, 56), (57, 57), (58, 58), (59, 59), (60, 60), (61, 61),
  (62, 62), (63, 63), (65, 65), (66, 66), (67, 67), (68, 68), (69, 69),
  (70, 70), (71, 71), (72, 72), (73, 73), (74, 74), (75, 75), (76, 76),
  (77, 77), (78, 78), (79, 79), (80, 80), (81, 81), (82, 82), (83, 83),
  (84, 84), (85, 85), (86, 86), (87, 87), (88, 88), (89, 89), (90, 90),
  (92, 92), (97, 97), (98, 98), (99, 99), (100, 100), (101, 101),
  (102, 102), (103, 103), (104, 104), (105, 105), (106, 106), (107, 107),
  (108, 108), (109, 109), (110, 110), (111, 111), (112, 112), (113, 113),
  (114, 114), (115, 115), (116, 116), (117, 117), (118, 118), (119, 119),
  (120, 120), (121, 121), (122, 122), (0x00B7, 0x8F), (0x2022, 0xD3), (0x2500, 0x97),
  (0x2501, 0xD2), (0x2588, 0x5F), (0x2594, 0xA3)]"
proof -
  have a: "fold (\<lambda>e acc. AList.update e e acc) ascii_chars [] = map (\<lambda>e. (e, e)) ascii_chars"
    unfolding fold_update_keys [where g = "\<lambda>e. e" and f = "\<lambda>e. e"]
    by (subst fold_update_fresh) (simp_all add: ascii_chars_def js_def)
  show ?thesis
    unfolding TEXT_ENCODING_def a
    by (subst fold_update_fresh) (simp_all add: ascii_chars_def js_def)
qed

lemma TEXT_DECODING_eq:
  "TEXT_DECODING = [(32, 32), (33, 33), (35, 35), (36, 36), (38, 38), (39, 39), (40, 40),
  (41, 41), (42, 42), (43, 43), (44, 44), (45, 45), (46, 46), (47, 47),
  (48, 48), (49, 49), (50, 50), (51, 51), (52, 52), (53, 53), (54, 54),
  (55, 55), (56, 56), (57, 57), (58, 58), (59, 59), (60, 60), (61, 61),
  (62, 62), (63, 63), (65, 65), (66, 66), (67, 67), (68, 68), (69, 69),
  (70, 70), (71, 71), (72, 72), (73, 73), (74, 74), (75, 75), (76, 76),
  (77, 77), (78, 78), (79, 79), (80, 80), (81, 81), (82, 82), (83, 83),
  (84, 84), (85, 85), (86, 86), (87, 87), (88, 88), (89, 89), (90, 90),
  (92, 92), (97, 97), (98, 98), (99, 99), (100, 100), (101, 101),
  (102, 102), (103, 103), (104, 104), (105, 105), (106, 106), (107, 107),
  (108, 108), (109, 109), (110, 110), (111, 111), (112, 112), (113, 113),
  (114, 114), (115, 115), (116, 116), (117, 117), (118, 118), (119, 119),
  (120, 120), (121, 121), (122, 122), (0x8F, 0x00B7), (0xD3, 0x2022), (0x97, 0x2500),
  (0xD2, 0x2501), (0x5F, 0x2588), (0xA3, 0x2594), (0x98, 0x2500), (0xA4, 0x2594), (0xA5, 0x2594)]"
proof -
  have a: "map (\<lambda>e. (the (map_of TEXT_ENCODING e), e)) (Object_keys TEXT_ENCODING)
           = map (\<lambda>(k, v). (v, k)) TEXT_ENCODING"
    unfolding TEXT_ENCODING_eq Object_keys_def by simp
  have b: "fold (\<lambda>e acc. AList.update (the (map_of TEXT_ENCODING e)) e acc) (Object_keys TEXT_ENCODING) []
           = map (\<lambda>(k, v). (v, k)) TEXT_ENCODING"
    unfolding fold_update_keys a
    by (subst fold_update_fresh) (simp_all add: TEXT_ENCODING_eq)
  show ?thesis
    unfolding TEXT_DECODING_def b
    by (subst fold_update_fresh) (simp_all add: TEXT_ENCODING_eq)
qed

section \<open>encodeText and decodeText as maps\<close>

lemma encodeText_loop_eq:
  "fst (encodeText_loop s bytesOut badChars) = bytesOut @ map enc1 s"
  by (induction s arbitrary: bytesOut badChars) (auto simp: enc1_def has_key_def)

lemma encodeText_eq: "encodeText s = Inr (map enc1 s)"
  using encodeText_loop_eq [of s "[]" "[]"]
  by (cases "encodeText_loop s [] []") (simp add: encodeText_def Set_length_def)

lemma decodeText_loop_eq: "decodeText_loop bytes s = s @ map dec1 bytes"
  by (induction bytes arbitrary: s) (auto simp: dec1_def has_key_def)

lemma decodeText_eq: "decodeText bytes = map dec1 bytes"
  by (simp add: decodeText_def decodeText_loop_eq)

lemma table_roundtrip_all:
  "list_all (\<lambda>(c, b). map_of TEXT_DECODING b = Some c \<and> b \<noteq> 10 \<and> b < 256 \<and> b \<noteq> 0) TEXT_ENCODING"
  unfolding TEXT_DECODING_eq TEXT_ENCODING_eq by simp

lemma table_roundtrip:
  assumes "map_of TEXT_ENCODING c = Some b"
  shows "map_of TEXT_DECODING b = Some c" "b \<noteq> 10" "b < 256"
  using table_roundtrip_all map_of_SomeD [OF assms] by (auto simp: list_all_iff)


lemma table_back_all:
  "list_all (\<lambda>(c, b). map_of TEXT_ENCODING c = Some b) TEXT_ENCODING"
  unfolding TEXT_ENCODING_eq by simp

section \<open>The animation tables\<close>

lemma ANIMATE_ENCODING_eq: "ANIMATE_ENCODING = [([0x4E], 0x00), ([0x56], 0x1D), ([0x48], 0x2F)]"
  by (simp add: ANIMATE_ENCODING_def NONE_def VSCROLL_def HSCROLL_def new_PageAnimate_def
      toUpperCase_def js_def)

lemma ANIMATE_DECODING_eq: "ANIMATE_DECODING = [(0x00, [0x4E]), (0x1D, [0x56]), (0x2F, [0x48])]"
  by (simp add: ANIMATE_DECODING_def ANIMATE_ENCODING_eq Object_keys_def)

lemma animate_consts: "NONE = [0x4E]" "VSCROLL = [0x56]" "HSCROLL = [0x48]"
  by (simp_all add: NONE_def VSCROLL_def HSCROLL_def new_PageAnimate_def toUpperCase_def js_def)

section \<open>The checks of the fromBytes functions\<close>

lemma PingMessage_fromBytes_checks:
  "(\<exists>m. PingMessage_fromBytes bytes address = Inl (RangeError m))
   \<longleftrightarrow> length bytes \<noteq> 3 \<or> take 2 bytes \<noteq> [address, 0x50]"
proof (cases "length bytes = 3")
  case True
  then obtain x y z where "bytes = [x, y, z]"
    by (cases bytes; cases "tl bytes"; cases "tl (tl bytes)") auto
  then show ?thesis
    by (auto simp: PingMessage_fromBytes_def PingMessage_marker_def new_PingMessage_def
        this_before_super_def)
next
  case False
  then show ?thesis by (auto simp: PingMessage_fromBytes_def)
qed

lemma ResponseMessage_fromBytes_checks:
  "(\<exists>m. ResponseMessage_fromBytes bytes address = Inl (RangeError m))
   \<longleftrightarrow> length bytes \<noteq> 4 \<or> take 2 bytes \<noteq> [address, 0x52] \<or> bytes ! 3 \<noteq> 0"
proof (cases "length bytes = 4")
  case True
  then obtain x y z w where "bytes = [x, y, z, w]"
    by (cases bytes; cases "tl bytes"; cases "tl (tl bytes)"; cases "tl (tl (tl bytes))") auto
  then show ?thesis
    by (auto simp: ResponseMessage_fromBytes_def ResponseMessage_marker_def
        new_ResponseMessage_def this_before_super_def)
next
  case False
  then show ?thesis by (auto simp: ResponseMessage_fromBytes_def)
qed

lemma fromBytes_truncated:
  "length bytes < 4 \<Longrightarrow> fromBytes bytes = Inl (RangeError ''Not enough bytes for a Page'')"
  by (simp add: fromBytes_def)

lemma fromBytes_unknown_animate:
  "4 \<le> length bytes \<Longrightarrow> bytes ! 0 \<notin> {0x00, 0x1D, 0x2F} \<Longrightarrow>
   fromBytes bytes = Inl (RangeError ''Unexpected animate byte value at index 0'')"
  by (simp add: fromBytes_def has_key_def ANIMATE_DECODING_eq)

section \<open>The regular expression\<close>

lemma not_letter_caret [simp]: "\<not> is_letter 0x5E" "\<not> is_digit 0x5E"
  by (simp_all add: is_letter_def is_digit_def)

lemma digit_not_letter: "is_digit c \<Longrightarrow> \<not> is_letter c"
  by (auto simp: is_letter_def is_digit_def)

lemma letter_not_digit: "is_letter c \<Longrightarrow> \<not> is_digit c"
  by (auto simp: is_letter_def is_digit_def)

lemma takeWhile_digits: "list_all is_digit d \<Longrightarrow> takeWhile is_digit (d @ 0x5E # t) = d"
  by (induction d) simp_all

lemma dropWhile_digits: "list_all is_digit d \<Longrightarrow> dropWhile is_digit (d @ 0x5E # t) = 0x5E # t"
  by (induction d) simp_all

lemma STR_RE_match_prefix:
  assumes "length a \<le> 1" "list_all is_letter a" "list_all is_digit d"
  shows "STR_RE_match (a @ d @ [0x5E] @ t)
         = \<lparr>group_animate = Some a, group_delay = Some d, group_text = t\<rparr>"
proof (cases a)
  case Nil
  have "(case d @ 0x5E # t of [] \<Rightarrow> [] | c # _ \<Rightarrow> if is_letter c then [c] else []) = []"
    using assms(3) by (cases d) (simp_all add: digit_not_letter)
  then show ?thesis
    using assms(3) Nil by (simp add: STR_RE_match_def takeWhile_digits dropWhile_digits)
next
  case (Cons c cs)
  then have a: "a = [c]" "is_letter c" using assms by simp_all
  show ?thesis
    using assms(3) a by (simp add: STR_RE_match_def takeWhile_digits dropWhile_digits)
qed

lemma STR_RE_match_cases:
  "STR_RE_match s = \<lparr>group_animate = None, group_delay = None, group_text = s\<rparr>
   \<or> (\<exists>a d t. s = a @ d @ [0x5E] @ t \<and> length a \<le> 1 \<and> list_all is_letter a \<and> list_all is_digit d)"
proof -
  define a where "a = (case s of [] \<Rightarrow> [] | c # _ \<Rightarrow> if is_letter c then [c] else [])"
  have a1: "length a \<le> 1" "list_all is_letter a" "a = take (length a) s"
    by (auto simp: a_def split: list.splits)
  have m: "STR_RE_match s =
     (case dropWhile is_digit (drop (length a) s) of
        [] \<Rightarrow> \<lparr>group_animate = None, group_delay = None, group_text = s\<rparr>
      | c # t \<Rightarrow>
          if c = 0x5E
          then \<lparr>group_animate = Some a,
                 group_delay = Some (takeWhile is_digit (drop (length a) s)), group_text = t\<rparr>
          else \<lparr>group_animate = None, group_delay = None, group_text = s\<rparr>)"
    unfolding STR_RE_match_def a_def Let_def ..
  show ?thesis
  proof (cases "dropWhile is_digit (drop (length a) s)")
    case Nil
    show ?thesis unfolding m Nil by simp
  next
    case (Cons c t)
    show ?thesis
    proof (cases "c = 0x5E")
      case True
      have "s = take (length a) s @ takeWhile is_digit (drop (length a) s)
                @ dropWhile is_digit (drop (length a) s)"
        by simp
      then have "s = a @ takeWhile is_digit (drop (length a) s) @ [0x5E] @ t"
        using Cons True a1(3) by simp
      moreover have "list_all is_digit (takeWhile is_digit (drop (length a) s))"
        by (simp add: list_all_iff) (meson set_takeWhileD)
      ultimately show ?thesis using a1 by blast
    next
      case False
      then show ?thesis unfolding m Cons by simp
    qed
  qed
qed

section \<open>Decimal digits\<close>

lemma dec_digits_digits: "list_all is_digit (dec_digits n)"
proof (induction n rule: dec_digits.induct)
  case (1 n)
  show ?case
  proof (cases "n < 10")
    case True
    then show ?thesis by (subst dec_digits.simps) (simp add: is_digit_def)
  next
    case False
    have "n mod 10 < 10" by simp
    then have "is_digit (48 + n mod 10)" unfolding is_digit_def by linarith
    then show ?thesis
      using False "1.IH" by (subst dec_digits.simps) simp
  qed
qed

lemma dec_digits_nonempty: "dec_digits n \<noteq> []"
  by (subst dec_digits.simps) simp

lemma parse_dec_digits: "foldl (\<lambda>acc c. 10 * acc + (c - 48)) 0 (dec_digits n) = n"
proof (induction n rule: dec_digits.induct)
  case (1 n)
  show ?case
  proof (cases "n < 10")
    case True
    then show ?thesis by (subst dec_digits.simps) simp
  next
    case False
    then show ?thesis
      using "1.IH" by (subst dec_digits.simps) simp
  qed
qed

lemma parseInt_Number_toString:
  "0 \<le> n \<Longrightarrow> n < 9007199254740992 \<Longrightarrow> parseInt (Number_toString n) = n"
  by (simp add: parseInt_def Number_toString_def parse_dec_digits)

lemma animate_letters:
  "a \<in> {NONE, VSCROLL, HSCROLL} \<Longrightarrow> length a = 1 \<and> list_all is_letter a \<and> toUpperCase a = a"
  by (auto simp: NONE_def VSCROLL_def HSCROLL_def new_PageAnimate_def toUpperCase_def js_def
      is_letter_def)

lemma dec_digits_no_leading_zero: "0 < n \<Longrightarrow> hd (dec_digits n) \<noteq> 0x30"
proof (induction n rule: dec_digits.induct)
  case (1 n)
  show ?case
  proof (cases "n < 10")
    case True
    then show ?thesis using "1.prems" by (subst dec_digits.simps) simp
  next
    case False
    then have "0 < n div 10" by simp
    then have "hd (dec_digits (n div 10)) \<noteq> 0x30" using "1.IH" False by simp
    then show ?thesis
      using False dec_digits_nonempty [of "n div 10"] by (subst dec_digits.simps) simp
  qed
qed

lemma dec_digits_canonical: "dec_digits n = [0x30] \<or> hd (dec_digits n) \<noteq> 0x30"
proof (cases "n = 0")
  case True
  then show ?thesis by (subst dec_digits.simps) simp
next
  case False
  then show ?thesis using dec_digits_no_leading_zero [of n] by simp
qed

section \<open>Splitting and joining\<close>

lemma js_split_nonempty: "js_split sep s \<noteq> []"
  by (induction s) (auto split: list.splits)

lemma js_split_no_sep: "l \<in> set (js_split sep s) \<Longrightarrow> sep \<notin> set l"
proof (induction s arbitrary: l)
  case Nil
  then show ?case by simp
next
  case (Cons c s)
  show ?case
  proof (cases "c = sep")
    case True
    then show ?thesis using Cons by auto
  next
    case False
    obtain l' ls where sp: "js_split sep s = l' # ls"
      using js_split_nonempty [of sep s] by (cases "js_split sep s") auto
    then have "l = c # l' \<or> l \<in> set ls" using Cons.prems False by auto
    then show ?thesis using Cons.IH sp False by auto
  qed
qed

lemma js_split_subset: "l \<in> set (js_split sep s) \<Longrightarrow> set l \<subseteq> set s"
proof (induction s arbitrary: l)
  case Nil
  then show ?case by simp
next
  case (Cons c s)
  show ?case
  proof (cases "c = sep")
    case True
    then show ?thesis using Cons by auto
  next
    case False
    obtain l' ls where sp: "js_split sep s = l' # ls"
      using js_split_nonempty [of sep s] by (cases "js_split sep s") auto
    then have "l = c # l' \<or> l \<in> set ls" using Cons.prems False by auto
    then show ?thesis using Cons.IH sp by fastforce
  qed
qed

lemma js_join_Cons: "ls \<noteq> [] \<Longrightarrow> js_join sep (l # ls) = l @ sep @ js_join sep ls"
  by (cases ls) simp_all

lemma js_join_split: "js_join [sep] (js_split sep s) = s"
proof (induction s)
  case Nil
  then show ?case by simp
next
  case (Cons c s)
  obtain l' ls where sp: "js_split sep s = l' # ls"
    using js_split_nonempty [of sep s] by (cases "js_split sep s") auto
  show ?case
  proof (cases "c = sep")
    case True
    then show ?thesis using Cons sp by (simp add: js_join_Cons)
  next
    case False
    then show ?thesis using Cons sp by (cases ls) simp_all
  qed
qed

lemma js_split_append_sep:
  "sep \<notin> set l \<Longrightarrow> js_split sep (l @ sep # s) = l # js_split sep s"
  by (induction l) auto

lemma js_split_no_sep_id: "sep \<notin> set l \<Longrightarrow> js_split sep l = [l]"
  by (induction l) auto

lemma js_split_join:
  "ls \<noteq> [] \<Longrightarrow> \<forall>l\<in>set ls. sep \<notin> set l \<Longrightarrow> js_split sep (js_join [sep] ls) = ls"
proof (induction ls)
  case Nil
  then show ?case by simp
next
  case (Cons l ls)
  show ?case
  proof (cases ls)
    case Nil
    then show ?thesis using Cons.prems by (simp add: js_split_no_sep_id)
  next
    case (Cons l2 ls2)
    then have "js_join [sep] (l # ls) = l @ sep # js_join [sep] ls" by simp
    then show ?thesis
      using Cons.IH Cons.prems Cons by (simp add: js_split_append_sep)
  qed
qed

lemma foldl_sep:
  "foldl (\<lambda>acc e. acc @ x # e) a ls = a @ concat (map (\<lambda>e. x # e) ls)"
  by (induction ls arbitrary: a) simp_all

lemma drop1_concat_sep: "drop 1 (concat (map (\<lambda>e. x # e) ls)) = js_join [x] ls"
proof (induction ls)
  case Nil
  then show ?case by simp
next
  case (Cons l ls)
  then show ?case by (cases ls) simp_all
qed

lemma lines_loop_eq:
  "lines_loop xs lines line
   = lines @ (case js_split NEWLINE_BYTESEQ xs of [] \<Rightarrow> [line] | l # ls \<Rightarrow> (line @ l) # ls)"
proof (induction xs arbitrary: lines line)
  case Nil
  then show ?case by simp
next
  case (Cons c xs)
  obtain l' ls where sp: "js_split NEWLINE_BYTESEQ xs = l' # ls"
    using js_split_nonempty [of NEWLINE_BYTESEQ xs] by (cases "js_split NEWLINE_BYTESEQ xs") auto
  show ?case using Cons sp by simp
qed

lemma lines_loop_split: "lines_loop xs [] [] = js_split NEWLINE_BYTESEQ xs"
  using js_split_nonempty [of NEWLINE_BYTESEQ xs]
  by (cases "js_split NEWLINE_BYTESEQ xs") (simp_all add: lines_loop_eq)

lemma pop_newlines_id: "xs = [] \<or> last xs \<noteq> NEWLINE_BYTESEQ \<Longrightarrow> pop_newlines xs = xs"
  by (subst pop_newlines.simps) auto

lemma last_js_split:
  "s \<noteq> [] \<Longrightarrow> last s \<noteq> sep \<Longrightarrow> last (js_split sep s) \<noteq> []"
proof (induction s)
  case Nil
  then show ?case by simp
next
  case (Cons c s)
  obtain l' ls where sp: "js_split sep s = l' # ls"
    using js_split_nonempty [of sep s] by (cases "js_split sep s") auto
  show ?case
  proof (cases "s = []")
    case True
    then show ?thesis using Cons.prems by simp
  next
    case False
    then have "last (js_split sep s) \<noteq> []" using Cons by simp
    then show ?thesis using sp by (cases ls) auto
  qed
qed

lemma js_join_nonempty: "ls \<noteq> [] \<Longrightarrow> last ls \<noteq> [] \<Longrightarrow> js_join sep ls \<noteq> []"
proof (induction ls)
  case Nil
  then show ?case by simp
next
  case (Cons l ls)
  then show ?case by (cases ls) simp_all
qed

lemma last_js_join:
  "ls \<noteq> [] \<Longrightarrow> last ls \<noteq> [] \<Longrightarrow> last (js_join sep ls) = last (last ls)"
proof (induction ls)
  case Nil
  then show ?case by simp
next
  case (Cons l ls)
  show ?case
  proof (cases ls)
    case Nil
    then show ?thesis by simp
  next
    case (Cons l2 ls2)
    then have j: "js_join sep (l # ls) = l @ sep @ js_join sep ls" by simp
    have "js_join sep ls \<noteq> []"
      using Cons.prems Cons by (intro js_join_nonempty) simp_all
    then show ?thesis using Cons.IH Cons.prems j Cons by simp
  qed
qed

lemma leading_run:
  "replicate (length (takeWhile (\<lambda>c. c = x) t)) x @ drop (length (takeWhile (\<lambda>c. c = x) t)) t = t"
  by (induction t) simp_all

section \<open>toBytes in closed form\<close>

text \<open>
  The bytes of a page: the header, then the lines (cut at \<open>_\<close> after the leading run of
  \<open>_\<close>), each with its first \<open>~\<close> replaced and encoded character by character, a hole
  counting as 0, joined by 0x0A.
\<close>

lemma map_throw_total: "(\<And>x. f x = Inr (g x)) \<Longrightarrow> map_throw f xs = Inr (map g xs)"
  by (induction xs) simp_all

lemma toBytes_eq:
  "toBytes p =
     Inr ([to_uint8 (case map_of ANIMATE_ENCODING (getAnimate p) of
                       None \<Rightarrow> Undefined | Some b \<Rightarrow> Num (int b)),
           length (takeWhile (\<lambda>c. c = 0x5F) (getText p)) mod 256,
           nat (getDelay p mod 256),
           0]
          @ js_join [0x0A]
              (map (\<lambda>l. map (\<lambda>c. to_uint8 (enc1 c)) (js_replace RIGHT_CHAR_DECODED RIGHT_CHAR_ENCODED l))
                 (js_split NEWLINE_CHAR (drop (length (takeWhile (\<lambda>c. c = 0x5F) (getText p))) (getText p)))))"
proof -
  let ?k = "length (takeWhile (\<lambda>c. c = 0x5F) (getText p))"
  let ?lines = "js_split NEWLINE_CHAR (drop ?k (getText p))"
  let ?g = "\<lambda>l. map enc1 (js_replace RIGHT_CHAR_DECODED RIGHT_CHAR_ENCODED l)"
  have m: "map_throw (\<lambda>line. encodeText (js_replace RIGHT_CHAR_DECODED RIGHT_CHAR_ENCODED line)) ?lines
           = Inr (map ?g ?lines)"
    by (rule map_throw_total) (simp add: encodeText_eq)
  have j: "map to_uint8 (drop 1 (foldl (\<lambda>acc e. acc @ [Num 0x0A] @ e) [] (map ?g ?lines)))
           = js_join [0x0A] (map (\<lambda>l. map (\<lambda>c. to_uint8 (enc1 c))
                 (js_replace RIGHT_CHAR_DECODED RIGHT_CHAR_ENCODED l)) ?lines)"
  proof -
    have "map to_uint8 (drop 1 (foldl (\<lambda>acc e. acc @ [Num 0x0A] @ e) [] (map ?g ?lines)))
          = drop 1 (concat (map (\<lambda>e. 0x0A # e) (map (map to_uint8) (map ?g ?lines))))"
      by (simp add: foldl_sep drop_map [symmetric] map_concat comp_def)
    then show ?thesis
      using drop1_concat_sep [of "0x0A" "map (map to_uint8) (map ?g ?lines)"]
      by (simp add: comp_def)
  qed
  show ?thesis
    unfolding toBytes_def Let_def m using j
    by (simp add: Buffer_from_def nat_mod_distrib)
qed

section \<open>One line through toBytes and fromBytes\<close>

lemma replace_tilde:
  "js_replace RIGHT_CHAR_DECODED RIGHT_CHAR_ENCODED l
   = takeWhile (\<lambda>c. c \<noteq> 0x7E) l
     @ (case dropWhile (\<lambda>c. c \<noteq> 0x7E) l of [] \<Rightarrow> [] | c # r \<Rightarrow> [0x5C, 0x52] @ r)"
  by (induction l) (simp_all add: RIGHT_CHAR_DECODED_def RIGHT_CHAR_ENCODED_def js_def)

lemma replace_escape_none:
  "\<not> occurs RIGHT_CHAR_ENCODED a \<Longrightarrow> js_replace RIGHT_CHAR_ENCODED RIGHT_CHAR_DECODED a = a"
  by (induction a) (auto simp: RIGHT_CHAR_ENCODED_def)

lemma js_replace_step:
  "take (length pat) (c # cs) \<noteq> pat \<Longrightarrow> js_replace pat rep (c # cs) = c # js_replace pat rep cs"
  by simp

lemma replace_escape_first:
  "\<not> occurs RIGHT_CHAR_ENCODED a \<Longrightarrow>
   js_replace RIGHT_CHAR_ENCODED RIGHT_CHAR_DECODED (a @ [0x5C, 0x52] @ b) = a @ [0x7E] @ b"
proof (induction a)
  case Nil
  then show ?case by (simp add: RIGHT_CHAR_ENCODED_def RIGHT_CHAR_DECODED_def js_def)
next
  case (Cons c a)
  then have no: "take 2 (c # a) \<noteq> [0x5C, 0x52]" and rest: "\<not> occurs RIGHT_CHAR_ENCODED a"
    by (simp_all add: RIGHT_CHAR_ENCODED_def)
  have ne: "take 2 (c # a @ [0x5C, 0x52] @ b) \<noteq> [0x5C, 0x52]"
    using no by (cases a) auto
  have "js_replace RIGHT_CHAR_ENCODED RIGHT_CHAR_DECODED (c # (a @ [0x5C, 0x52] @ b))
        = c # js_replace RIGHT_CHAR_ENCODED RIGHT_CHAR_DECODED (a @ [0x5C, 0x52] @ b)"
    by (rule js_replace_step) (use ne in \<open>simp add: RIGHT_CHAR_ENCODED_def\<close>)
  then show ?case
    using Cons.IH [OF rest] by simp
qed

lemma replace_round_trip:
  assumes "\<not> occurs RIGHT_CHAR_ENCODED (takeWhile (\<lambda>c. c \<noteq> 0x7E) l)"
  shows "js_replace RIGHT_CHAR_ENCODED RIGHT_CHAR_DECODED
           (js_replace RIGHT_CHAR_DECODED RIGHT_CHAR_ENCODED l) = l"
proof (cases "dropWhile (\<lambda>c. c \<noteq> 0x7E) l")
  case Nil
  then have "takeWhile (\<lambda>c. c \<noteq> 0x7E) l = l"
    by (metis append_Nil2 takeWhile_dropWhile_id)
  then have tw: "takeWhile (\<lambda>c. c \<noteq> 0x7E) l = l" .
  have r: "js_replace RIGHT_CHAR_DECODED RIGHT_CHAR_ENCODED l = l"
    unfolding replace_tilde Nil tw by simp
  show ?thesis
    unfolding r using assms [unfolded tw] by (rule replace_escape_none)
next
  case (Cons c r)
  then have "c = 0x7E" using hd_dropWhile [of "\<lambda>c. c \<noteq> 0x7E" l] by auto
  then have "l = takeWhile (\<lambda>c. c \<noteq> 0x7E) l @ [0x7E] @ r"
    using Cons takeWhile_dropWhile_id [of "\<lambda>c. c \<noteq> 0x7E" l] by simp
  then show ?thesis
    using replace_escape_first [OF assms, of r] Cons by (simp add: replace_tilde)
qed

lemma replace_tilde_chars:
  assumes "length (filter (\<lambda>c. c = 0x7E) l) \<le> 1"
  shows "set (js_replace RIGHT_CHAR_DECODED RIGHT_CHAR_ENCODED l) \<subseteq> (set l - {0x7E}) \<union> {0x5C, 0x52}"
proof (cases "dropWhile (\<lambda>c. c \<noteq> 0x7E) l")
  case Nil
  then have "takeWhile (\<lambda>c. c \<noteq> 0x7E) l = l"
    by (metis append_Nil2 takeWhile_dropWhile_id)
  then have tw: "takeWhile (\<lambda>c. c \<noteq> 0x7E) l = l" .
  have r: "js_replace RIGHT_CHAR_DECODED RIGHT_CHAR_ENCODED l = l"
    unfolding replace_tilde Nil tw by simp
  have "0x7E \<notin> set (takeWhile (\<lambda>c. c \<noteq> 0x7E) l)"
    by (auto dest: set_takeWhileD)
  then have "0x7E \<notin> set l" unfolding tw .
  then show ?thesis unfolding r by auto
next
  case (Cons c r)
  then have c: "c = 0x7E" using hd_dropWhile [of "\<lambda>c. c \<noteq> 0x7E" l] by auto
  have l: "l = takeWhile (\<lambda>c. c \<noteq> 0x7E) l @ [0x7E] @ r"
    using Cons c takeWhile_dropWhile_id [of "\<lambda>c. c \<noteq> 0x7E" l] by simp
  have t: "0x7E \<notin> set (takeWhile (\<lambda>c. c \<noteq> 0x7E) l)"
    by (auto dest: set_takeWhileD)
  have "length (filter (\<lambda>c. c = 0x7E) (takeWhile (\<lambda>c. c \<noteq> 0x7E) l @ [0x7E] @ r)) \<le> 1"
    using assms l by simp
  then have "filter (\<lambda>c. c = 0x7E) r = []" by simp
  then have r: "0x7E \<notin> set r" by (auto simp: filter_empty_conv)
  have "set (takeWhile (\<lambda>c. c \<noteq> 0x7E) l) \<subseteq> set l" "set r \<subseteq> set l"
    using l by (metis set_takeWhileD subsetI, metis Un_iff set_append subsetI)
  then show ?thesis using Cons t r by (auto simp: replace_tilde)
qed

lemma replace_tilde_last:
  assumes "l = [] \<or> last l \<noteq> 0x20"
  shows "js_replace RIGHT_CHAR_DECODED RIGHT_CHAR_ENCODED l = []
         \<or> last (js_replace RIGHT_CHAR_DECODED RIGHT_CHAR_ENCODED l) \<noteq> 0x20"
proof (cases "dropWhile (\<lambda>c. c \<noteq> 0x7E) l")
  case Nil
  then have "takeWhile (\<lambda>c. c \<noteq> 0x7E) l = l"
    by (metis append_Nil2 takeWhile_dropWhile_id)
  then have tw: "takeWhile (\<lambda>c. c \<noteq> 0x7E) l = l" .
  have r: "js_replace RIGHT_CHAR_DECODED RIGHT_CHAR_ENCODED l = l"
    unfolding replace_tilde Nil tw by simp
  show ?thesis unfolding r using assms .
next
  case (Cons c r)
  then have c: "c = 0x7E" using hd_dropWhile [of "\<lambda>c. c \<noteq> 0x7E" l] by auto
  have l: "l = takeWhile (\<lambda>c. c \<noteq> 0x7E) l @ [0x7E] @ r"
    using Cons c takeWhile_dropWhile_id [of "\<lambda>c. c \<noteq> 0x7E" l] by simp
  show ?thesis
  proof (cases "r = []")
    case True
    then show ?thesis using Cons by (simp add: replace_tilde)
  next
    case False
    then have "last l = last r" using l by (metis append_assoc last_appendR)
    then show ?thesis using Cons False assms by (auto simp: replace_tilde)
  qed
qed

lemma replace_tilde_nonempty:
  "l \<noteq> [] \<Longrightarrow> js_replace RIGHT_CHAR_DECODED RIGHT_CHAR_ENCODED l \<noteq> []"
  by (cases l) (simp_all add: RIGHT_CHAR_DECODED_def RIGHT_CHAR_ENCODED_def js_def)

lemma replace_trailing_spaces_id: "s = [] \<or> last s \<noteq> 0x20 \<Longrightarrow> replace_trailing_spaces s = s"
proof (cases "s = []")
  case True
  then show ?thesis by (simp add: replace_trailing_spaces_def)
next
  case False
  assume "s = [] \<or> last s \<noteq> 0x20"
  then have "hd (rev s) \<noteq> 0x20" using False by (simp add: hd_rev)
  then have "takeWhile (\<lambda>c. c = 0x20) (rev s) = []"
    using False by (cases "rev s") simp_all
  then show ?thesis by (simp add: replace_trailing_spaces_def)
qed

lemma encoded_bytes:
  assumes "\<forall>c\<in>set r. has_key c TEXT_ENCODING"
  shows "map dec1 (map (\<lambda>c. to_uint8 (enc1 c)) r) = r"
    and "0x0A \<notin> set (map (\<lambda>c. to_uint8 (enc1 c)) r)"
proof -
  have one: "dec1 (to_uint8 (enc1 c)) = c \<and> to_uint8 (enc1 c) \<noteq> 0x0A" if "c \<in> set r" for c
  proof -
    from that assms obtain b where b: "map_of TEXT_ENCODING c = Some b"
      by (auto simp: has_key_def)
    from table_roundtrip [OF b] have "to_uint8 (enc1 c) = b"
      by (simp add: enc1_def b nat_mod_distrib)
    then show ?thesis using table_roundtrip [OF b] by (simp add: dec1_def)
  qed
  show "map dec1 (map (\<lambda>c. to_uint8 (enc1 c)) r) = r"
    using one by (simp add: map_idI)
  show "0x0A \<notin> set (map (\<lambda>c. to_uint8 (enc1 c)) r)"
    using one by auto
qed

lemma js_split_leading:
  "js_split sep (replicate k sep @ s) = replicate k [] @ js_split sep s"
  by (induction k) simp_all

lemma escape_chars_in_table: "has_key 0x5C TEXT_ENCODING" "has_key 0x52 TEXT_ENCODING"
  by (simp_all add: has_key_def TEXT_ENCODING_eq)

lemma animate_byte:
  assumes "a \<in> {NONE, VSCROLL, HSCROLL}"
  shows "\<exists>b. map_of ANIMATE_ENCODING a = Some b \<and> b < 256
             \<and> has_key b ANIMATE_DECODING \<and> the (map_of ANIMATE_DECODING b) = a"
  using assms
  by (auto simp: ANIMATE_ENCODING_eq ANIMATE_DECODING_eq animate_consts has_key_def)

lemma pop_newlines_snoc: "pop_newlines (xs @ [NEWLINE_BYTESEQ]) = pop_newlines xs"
  by (subst pop_newlines.simps) simp

section \<open>toBytes on lines with at most one marker\<close>

text \<open>
  Where no line has a second \<open>~\<close>, the code's replacement is the specification's, and the
  bytes are the header (animation byte, count of leading \<open>_\<close>, delay, 0) followed by the
  encoded lines joined by 0x0A.
\<close>

lemma replace_one_marker:
  "length (filter (\<lambda>c. c = 0x7E) l) \<le> 1 \<Longrightarrow>
   js_replace RIGHT_CHAR_DECODED RIGHT_CHAR_ENCODED l = replace_all_markers l"
proof (induction l)
  case Nil
  then show ?case by (simp add: replace_all_markers_def RIGHT_CHAR_DECODED_def js_def)
next
  case (Cons c l)
  show ?case
  proof (cases "c = 0x7E")
    case True
    then have "filter (\<lambda>c. c = 0x7E) l = []" using Cons.prems by simp
    then have "\<forall>x\<in>set l. x \<noteq> 0x7E" by (auto simp: filter_empty_conv)
    then have "replace_all_markers l = l"
      unfolding replace_all_markers_def by (induction l) simp_all
    then show ?thesis
      using True
      by (simp add: replace_all_markers_def RIGHT_CHAR_DECODED_def RIGHT_CHAR_ENCODED_def js_def)
  next
    case False
    then show ?thesis
      using Cons
      by (simp add: replace_all_markers_def RIGHT_CHAR_DECODED_def RIGHT_CHAR_ENCODED_def js_def)
  qed
qed

lemma toBytes_one_marker:
  assumes "\<forall>l\<in>set (js_split NEWLINE_CHAR (getText p)). length (filter (\<lambda>c. c = 0x7E) l) \<le> 1"
    and "\<forall>c\<in>set (getText p). has_key c TEXT_ENCODING \<or> c = 0x7E \<or> c = 0x5F"
    and "map_of ANIMATE_ENCODING (getAnimate p) = Some ab"
    and "0 \<le> getDelay p" "getDelay p \<le> 255"
    and "length (takeWhile (\<lambda>c. c = 0x5F) (getText p)) = k" "k < 256"
  shows "toBytes p =
     Inr ([ab, k, nat (getDelay p), 0x00]
          @ js_join [0x0A]
              (map (\<lambda>l. map (\<lambda>c. the (map_of TEXT_ENCODING c)) (replace_all_markers l))
                 (js_split NEWLINE_CHAR (drop k (getText p)))))"
proof -
  have ab: "ab < 256" using assms(3) by (auto simp: ANIMATE_ENCODING_eq split: if_splits)
  have t: "getText p = replicate k 0x5F @ drop k (getText p)"
    using leading_run [where x = "0x5F" and t = "getText p"] assms(6) by simp
  have sub: "set (js_split NEWLINE_CHAR (drop k (getText p))) \<subseteq> set (js_split NEWLINE_CHAR (getText p))"
    by (subst (2) t) (simp add: NEWLINE_CHAR_def js_split_leading)
  have line: "map (\<lambda>c. to_uint8 (enc1 c)) (js_replace RIGHT_CHAR_DECODED RIGHT_CHAR_ENCODED l)
              = map (\<lambda>c. the (map_of TEXT_ENCODING c)) (replace_all_markers l)"
    if l: "l \<in> set (js_split NEWLINE_CHAR (drop k (getText p)))" for l
  proof -
    have one: "length (filter (\<lambda>c. c = 0x7E) l) \<le> 1" using assms(1) sub l by auto
    have "set l \<subseteq> set (drop k (getText p))" using l by (rule js_split_subset)
    then have "set l \<subseteq> set (getText p)" by (meson in_set_dropD subset_iff)
    moreover have "0x5F \<notin> set l"
      using js_split_no_sep [OF l] by (simp add: NEWLINE_CHAR_def)
    ultimately have lc: "\<forall>c\<in>set l. has_key c TEXT_ENCODING \<or> c = 0x7E"
      using assms(2) by auto
    have "set (js_replace RIGHT_CHAR_DECODED RIGHT_CHAR_ENCODED l) \<subseteq> (set l - {0x7E}) \<union> {0x5C, 0x52}"
      using one by (rule replace_tilde_chars)
    then have rc: "\<forall>c\<in>set (replace_all_markers l). has_key c TEXT_ENCODING"
      using lc escape_chars_in_table replace_one_marker [OF one] by auto
    have "to_uint8 (enc1 c) = the (map_of TEXT_ENCODING c)" if "has_key c TEXT_ENCODING" for c
    proof -
      from that obtain b where b: "map_of TEXT_ENCODING c = Some b" by (auto simp: has_key_def)
      then show ?thesis using table_roundtrip(3) [OF b] by (simp add: enc1_def nat_mod_distrib)
    qed
    then show ?thesis using rc by (simp add: replace_one_marker [OF one])
  qed
  have "nat (getDelay p mod 256) = nat (getDelay p)" using assms(4,5) by simp
  moreover have "to_uint8 (Num (int ab)) = ab" using ab by (simp add: nat_mod_distrib)
  ultimately show ?thesis
    using assms(6,7) line by (simp add: toBytes_eq assms(3) cong: map_cong)
qed

section \<open>The claims\<close>

text \<open>
  C8. For every sequence of bytes, decodeText returns a text (it has no failing branch):
  each byte that is a key of the decode table gives its character, every other byte gives
  the replacement character U+FFFD, one character for each byte.
\<close>

theorem decodeText_total:
  "decodeText bytes =
     map (\<lambda>byte. case map_of TEXT_DECODING byte of Some c \<Rightarrow> c | None \<Rightarrow> 0xFFFD) bytes
   \<and> length (decodeText bytes) = length bytes"
  by (simp add: decodeText_eq dec1_def option.case_eq_if cong: option.case_cong)



text \<open>
  C3. The claim asks encodeText to fail when a character is not in the table. The code
  tests \<open>badChars.length\<close>, which a Set does not have, so the test is never true: on
  \<open>a%b\<close> encodeText returns an array with a hole at the place of \<open>%\<close>.
\<close>

theorem encodeText_never_throws: "encodeText (js ''a%b'') = Inr [Num 97, Undefined, Num 98]"
  by (simp add: encodeText_eq enc1_def js_def TEXT_ENCODING_eq)

text \<open>
  C4. Page.fromStr on any string: when the string does not start with the prefix of the
  grammar (at most one letter, then digits, then \<open>^\<close>), the page has the whole string as
  its text and the caller's defaults as animation and delay; when it does, the text of the
  page is what follows the \<open>^\<close>, its animation is the upper-case form of the letter, or
  the default without a letter, and its delay is the number the digits denote (for a run
  that denotes a number below \<open>2^53\<close>, which parseInt returns exactly), or the default
  when the run is empty, so \<open>V^text\<close> has the default delay, not zero. The examples of
  the specification are the last conjuncts.
\<close>

theorem fromStr_prefix_cases:
  "(\<not> (\<exists>a d t. s = a @ d @ [0x5E] @ t \<and> length a \<le> 1 \<and> list_all is_letter a \<and> list_all is_digit d)
      \<longrightarrow> fromStr s default_animate default_delay
            = \<lparr>getAnimate = default_animate, getDelay = default_delay, getText = s\<rparr>)
   \<and> (\<forall>a d t. s = a @ d @ [0x5E] @ t \<and> length a \<le> 1 \<and> list_all is_letter a \<and> list_all is_digit d
      \<longrightarrow> getAnimate (fromStr s default_animate default_delay)
              = (if a = [] then default_animate else toUpperCase a)
          \<and> getText (fromStr s default_animate default_delay) = t
          \<and> (d = [] \<longrightarrow> getDelay (fromStr s default_animate default_delay) = default_delay)
          \<and> (d \<noteq> [] \<and> parseInt d < 9007199254740992
                \<longrightarrow> getDelay (fromStr s default_animate default_delay) = parseInt d))
   \<and> fromStr (js ''H40^hello'') NONE 20
       = \<lparr>getAnimate = js ''H'', getDelay = 40, getText = js ''hello''\<rparr>
   \<and> fromStr (js ''hello'') NONE 20
       = \<lparr>getAnimate = js ''N'', getDelay = 20, getText = js ''hello''\<rparr>
   \<and> fromStr (js ''V^hello'') NONE 20
       = \<lparr>getAnimate = js ''V'', getDelay = 20, getText = js ''hello''\<rparr>
   \<and> fromStr (js ''v5^a^b'') NONE 20
       = \<lparr>getAnimate = js ''V'', getDelay = 5, getText = js ''a^b''\<rparr>"
proof (intro conjI allI impI)
  assume "\<not> (\<exists>a d t. s = a @ d @ [0x5E] @ t \<and> length a \<le> 1 \<and> list_all is_letter a \<and> list_all is_digit d)"
  then have "STR_RE_match s = \<lparr>group_animate = None, group_delay = None, group_text = s\<rparr>"
    using STR_RE_match_cases [of s] by blast
  then show "fromStr s default_animate default_delay
            = \<lparr>getAnimate = default_animate, getDelay = default_delay, getText = s\<rparr>"
    by (simp add: fromStr_def truthy_def new_Page_def)
next
  fix a d t
  assume "s = a @ d @ [0x5E] @ t \<and> length a \<le> 1 \<and> list_all is_letter a \<and> list_all is_digit d"
  then have "STR_RE_match s = \<lparr>group_animate = Some a, group_delay = Some d, group_text = t\<rparr>"
    using STR_RE_match_prefix by blast
  then have f: "fromStr s default_animate default_delay
      = \<lparr>getAnimate = (if a = [] then default_animate else toUpperCase a),
         getDelay = (if d = [] then default_delay else parseInt d), getText = t\<rparr>"
    by (simp add: fromStr_def truthy_def new_PageAnimate_def new_Page_def)
  show "getAnimate (fromStr s default_animate default_delay)
          = (if a = [] then default_animate else toUpperCase a)"
    by (simp add: f)
  show "getText (fromStr s default_animate default_delay) = t"
    by (simp add: f)
  show "getDelay (fromStr s default_animate default_delay) = default_delay" if "d = []"
    using that by (simp add: f)
  show "getDelay (fromStr s default_animate default_delay) = parseInt d"
    if "d \<noteq> [] \<and> parseInt d < 9007199254740992"
    using that by (simp add: f)
qed (simp_all add: fromStr_def STR_RE_match_def js_def is_letter_def is_digit_def truthy_def
      new_PageAnimate_def toUpperCase_def parseInt_def new_Page_def NONE_def)

theorem fromStr_prefix_cases_witness:
  "fromStr (js ''hello'') VSCROLL 7 = \<lparr>getAnimate = VSCROLL, getDelay = 7, getText = js ''hello''\<rparr>
   \<and> getAnimate (fromStr (js ''h40^hello'') NONE 20) = js ''H''
   \<and> getDelay (fromStr (js ''h40^hello'') NONE 20) = 40
   \<and> getText (fromStr (js ''h40^hello'') NONE 20) = js ''hello''
   \<and> getAnimate (fromStr (js ''^hello'') VSCROLL 7) = VSCROLL
   \<and> getDelay (fromStr (js ''^hello'') VSCROLL 7) = 7"
proof -
  have no: "\<not> (\<exists>a d t. js ''hello'' = a @ d @ [0x5E] @ t \<and> length a \<le> 1
               \<and> list_all is_letter a \<and> list_all is_digit d)"
  proof
    assume "\<exists>a d t. js ''hello'' = a @ d @ [0x5E] @ t \<and> length a \<le> 1
               \<and> list_all is_letter a \<and> list_all is_digit d"
    then obtain a d t where "js ''hello'' = a @ d @ [0x5E] @ t" by blast
    then have "0x5E \<in> set (js ''hello'')" by simp
    then show False by (simp add: js_def)
  qed
  have h: "js ''h40^hello'' = [0x68] @ [0x34, 0x30] @ [0x5E] @ js ''hello'' \<and> length [0x68 :: nat] \<le> 1
           \<and> list_all is_letter [0x68] \<and> list_all is_digit [0x34, 0x30]"
    by (simp add: js_def is_letter_def is_digit_def)
  have hd: "[0x34, 0x30 :: nat] \<noteq> [] \<and> parseInt [0x34, 0x30] < 9007199254740992"
    by (simp add: parseInt_def)
  have e: "js ''^hello'' = [] @ [] @ [0x5E] @ js ''hello'' \<and> length ([] :: nat list) \<le> 1
           \<and> list_all is_letter [] \<and> list_all is_digit []"
    by (simp add: js_def)
  have 1: "fromStr (js ''hello'') VSCROLL 7
           = \<lparr>getAnimate = VSCROLL, getDelay = 7, getText = js ''hello''\<rparr>"
    using fromStr_prefix_cases [of "js ''hello''" VSCROLL 7] no by blast
  have 2: "getAnimate (fromStr (js ''h40^hello'') NONE 20)
             = (if [0x68::nat] = [] then NONE else toUpperCase [0x68])
           \<and> getText (fromStr (js ''h40^hello'') NONE 20) = js ''hello''
           \<and> getDelay (fromStr (js ''h40^hello'') NONE 20) = parseInt [0x34, 0x30]"
    using fromStr_prefix_cases [of "js ''h40^hello''" NONE 20] h hd by blast
  have 3: "getAnimate (fromStr (js ''^hello'') VSCROLL 7)
             = (if ([]::nat list) = [] then VSCROLL else toUpperCase [])
           \<and> getDelay (fromStr (js ''^hello'') VSCROLL 7) = 7"
    using fromStr_prefix_cases [of "js ''^hello''" VSCROLL 7] e by blast
  show ?thesis
    using 1 2 3 by (simp add: toUpperCase_def parseInt_def js_def)
qed

text \<open>
  C9. For a Page whose delay is in 0..255, toString is the animation string, the delay in
  decimal (a non-empty run of digits that denotes the delay and is \<open>0\<close> or starts with
  another digit than \<open>0\<close>), \<open>^\<close> and the text; when the animation is moreover NONE,
  VSCROLL or HSCROLL, Page.fromStr returns the page from that string, whatever the
  defaults; and the page (VSCROLL, 40, "12:34 FUNKYTOWN~5_Limited Express") prints as
  "V40^12:34 FUNKYTOWN~5_Limited Express".
\<close>

theorem toString_fromStr:
  "(0 \<le> getDelay p \<and> getDelay p \<le> 255 \<longrightarrow>
      (\<exists>ds. toString p = getAnimate p @ ds @ js ''^'' @ getText p
            \<and> ds \<noteq> [] \<and> list_all is_digit ds \<and> (ds = js ''0'' \<or> hd ds \<noteq> 0x30)
            \<and> parseInt ds = getDelay p))
   \<and> (getAnimate p \<in> {NONE, VSCROLL, HSCROLL} \<and> 0 \<le> getDelay p \<and> getDelay p \<le> 255 \<longrightarrow>
        fromStr (toString p) default_animate default_delay = p)
   \<and> toString \<lparr>getAnimate = VSCROLL, getDelay = 40,
                 getText = js ''12:34 FUNKYTOWN~5_Limited Express''\<rparr>
       = js ''V40^12:34 FUNKYTOWN~5_Limited Express''
   \<and> toString \<lparr>getAnimate = HSCROLL, getDelay = 0, getText = js ''a^b''\<rparr> = js ''H0^a^b''
   \<and> toString \<lparr>getAnimate = NONE, getDelay = 255, getText = []\<rparr> = js ''N255^''"
proof (intro conjI impI)
  assume "0 \<le> getDelay p \<and> getDelay p \<le> 255"
  then have d: "0 \<le> getDelay p" and b: "getDelay p < 9007199254740992" by simp_all
  then have n: "Number_toString (getDelay p) = dec_digits (nat (getDelay p))"
    by (simp add: Number_toString_def)
  have c: "Number_toString (getDelay p) = js ''0'' \<or> hd (Number_toString (getDelay p)) \<noteq> 0x30"
    unfolding n using dec_digits_canonical [of "nat (getDelay p)"] by (simp add: js_def)
  show "\<exists>ds. toString p = getAnimate p @ ds @ js ''^'' @ getText p
            \<and> ds \<noteq> [] \<and> list_all is_digit ds \<and> (ds = js ''0'' \<or> hd ds \<noteq> 0x30)
            \<and> parseInt ds = getDelay p"
    using d n c parseInt_Number_toString [OF d b]
    by (intro exI [of _ "Number_toString (getDelay p)"])
       (simp add: toString_def ATTRS_SEP_def dec_digits_nonempty dec_digits_digits)
next
  assume "getAnimate p \<in> {NONE, VSCROLL, HSCROLL} \<and> 0 \<le> getDelay p \<and> getDelay p \<le> 255"
  then have a: "length (getAnimate p) = 1" "list_all is_letter (getAnimate p)"
      "toUpperCase (getAnimate p) = getAnimate p" and d: "0 \<le> getDelay p"
      and b: "getDelay p < 9007199254740992"
    using animate_letters [of "getAnimate p"] by simp_all
  have ds: "list_all is_digit (Number_toString (getDelay p))" "Number_toString (getDelay p) \<noteq> []"
    using d by (simp_all add: Number_toString_def dec_digits_nonempty dec_digits_digits)
  have "toString p = getAnimate p @ Number_toString (getDelay p) @ [0x5E] @ getText p"
    by (simp add: toString_def ATTRS_SEP_def js_def)
  then have "STR_RE_match (toString p)
      = \<lparr>group_animate = Some (getAnimate p), group_delay = Some (Number_toString (getDelay p)),
         group_text = getText p\<rparr>"
    using STR_RE_match_prefix [of "getAnimate p" "Number_toString (getDelay p)" "getText p"] a ds
    by simp
  then show "fromStr (toString p) default_animate default_delay = p"
    using a ds parseInt_Number_toString [OF d b]
    by (auto simp: fromStr_def truthy_def new_PageAnimate_def new_Page_def)
next
  have "dec_digits 40 = [0x34, 0x30]"
    by (subst dec_digits.simps, subst dec_digits.simps) simp
  then show "toString \<lparr>getAnimate = VSCROLL, getDelay = 40,
                 getText = js ''12:34 FUNKYTOWN~5_Limited Express''\<rparr>
       = js ''V40^12:34 FUNKYTOWN~5_Limited Express''"
    by (simp add: toString_def Number_toString_def ATTRS_SEP_def VSCROLL_def
        new_PageAnimate_def toUpperCase_def js_def)
next
  have "dec_digits 0 = [0x30]"
    by (subst dec_digits.simps) simp
  then show "toString \<lparr>getAnimate = HSCROLL, getDelay = 0, getText = js ''a^b''\<rparr> = js ''H0^a^b''"
    by (simp add: toString_def Number_toString_def ATTRS_SEP_def HSCROLL_def
        new_PageAnimate_def toUpperCase_def js_def)
next
  have "dec_digits 255 = [0x32, 0x35, 0x35]"
    by (subst dec_digits.simps, subst dec_digits.simps, subst dec_digits.simps) simp
  then show "toString \<lparr>getAnimate = NONE, getDelay = 255, getText = []\<rparr> = js ''N255^''"
    by (simp add: toString_def Number_toString_def ATTRS_SEP_def NONE_def
        new_PageAnimate_def toUpperCase_def js_def)
qed

theorem toString_fromStr_witness:
  "HSCROLL \<in> {NONE, VSCROLL, HSCROLL} \<and> (0::int) \<le> 0 \<and> (0::int) \<le> 255
   \<and> fromStr (toString \<lparr>getAnimate = HSCROLL, getDelay = 0, getText = js ''a^b''\<rparr>) NONE 20
       = \<lparr>getAnimate = HSCROLL, getDelay = 0, getText = js ''a^b''\<rparr>
   \<and> toString \<lparr>getAnimate = HSCROLL, getDelay = 0, getText = js ''a^b''\<rparr> = js ''H0^a^b''
   \<and> (\<exists>ds. toString \<lparr>getAnimate = HSCROLL, getDelay = 0, getText = js ''a^b''\<rparr>
               = HSCROLL @ ds @ js ''^'' @ js ''a^b'' \<and> (ds = js ''0'' \<or> hd ds \<noteq> 0x30)
               \<and> parseInt ds = 0)"
  using toString_fromStr [of "\<lparr>getAnimate = HSCROLL, getDelay = 0, getText = js ''a^b''\<rparr>" NONE 20]
  by auto

text \<open>
  C1. The claim has every \<open>~\<close> of a line replaced by the escape \<open>\R\<close>. The code calls
  \<open>replace\<close> with a string pattern, which replaces the first \<open>~\<close> only; a second \<open>~\<close> is
  not in the encode table, encodeText leaves a hole for it, and \<open>Buffer.from\<close> stores the
  hole as the byte 0. The page (NONE, 20, "a~b~c") shows it. (On pages without a second
  \<open>~\<close> in a line the bytes are as the claim says: \<open>toBytes_one_marker\<close>.)
\<close>

theorem toBytes_second_marker:
  "toBytes \<lparr>getAnimate = NONE, getDelay = 20, getText = js ''a~b~c''\<rparr>
     = Inr [0x00, 0, 20, 0x00, 0x61, 0x5C, 0x52, 0x62, 0x00, 0x63]"
  by (simp add: toBytes_def js_def NEWLINE_CHAR_def RIGHT_CHAR_DECODED_def RIGHT_CHAR_ENCODED_def
      encodeText_eq enc1_def TEXT_ENCODING_eq ANIMATE_ENCODING_eq animate_consts Buffer_from_def)

text \<open>The example of the claim holds.\<close>

lemma toBytes_example:
  "toBytes (fromStr (js ''V35^_Hello World'') NONE 20)
     = Inr [0x1D, 0x01, 35, 0x00, 0x48, 0x65, 0x6c, 0x6c, 0x6f, 0x20, 0x57, 0x6f, 0x72, 0x6c, 0x64]"
  by (simp add: fromStr_def STR_RE_match_def js_def is_letter_def is_digit_def truthy_def
      new_PageAnimate_def toUpperCase_def parseInt_def new_Page_def
      toBytes_def NEWLINE_CHAR_def RIGHT_CHAR_DECODED_def RIGHT_CHAR_ENCODED_def
      encodeText_eq enc1_def TEXT_ENCODING_eq ANIMATE_ENCODING_eq Buffer_from_def)

text \<open>
  C5. The claim has both fromBytes functions return a frame on a well-formed input. Both
  reach the constructor there, and the constructor raises a ReferenceError, since it
  assigns to \<open>this\<close> in a derived class without calling \<open>super()\<close>.
\<close>

theorem messages_never_constructed:
  "PingMessage_fromBytes [address, 0x50, b] address = Inl this_before_super
   \<and> ResponseMessage_fromBytes [address, 0x52, b, 0x00] address = Inl this_before_super"
  by (simp add: PingMessage_fromBytes_def ResponseMessage_fromBytes_def PingMessage_marker_def
      ResponseMessage_marker_def new_PingMessage_def new_ResponseMessage_def)

text \<open>
  C6. The claim has Page.fromBytes fail with the error of the reserved byte when the
  fourth byte is not zero. The code's throw names \<open>bytes_in\<close>, which is not defined, so
  the failure is a ReferenceError instead. (The first two checks are
  \<open>fromBytes_truncated\<close> and \<open>fromBytes_unknown_animate\<close> above.)
\<close>

theorem fromBytes_reserved_byte: "fromBytes [0x00, 0, 0, 0x01] = Inl (ReferenceError ''bytes_in is not defined'')"
  by (simp add: fromBytes_def has_key_def ANIMATE_DECODING_eq)

text \<open>
  C10. The claim has an unknown animation letter and a delay outside 0..255 rejected.
  Neither constructor checks anything: Page.fromStr on \<open>X300^hi\<close> returns a page with
  animation \<open>X\<close> and delay 300.
\<close>

theorem fromStr_accepts_anything:
  "fromStr (js ''X300^hi'') NONE 20 = \<lparr>getAnimate = js ''X'', getDelay = 300, getText = js ''hi''\<rparr>"
  by (simp add: fromStr_def STR_RE_match_def js_def is_letter_def is_digit_def truthy_def
      new_PageAnimate_def toUpperCase_def parseInt_def new_Page_def)

text \<open>
  C2. As claimed (for every valid page), fromBytes after toBytes does not give the page
  back: fromBytes trims the line feeds at the end of the body, so a text that ends with
  \<open>_\<close> loses it. What holds: for a page with animation NONE, VSCROLL or HSCROLL, a delay in
  0..255 and a text of characters of the encode table, \<open>~\<close> and \<open>_\<close>, toBytes returns
  bytes from which fromBytes returns the same page, provided the text starts with fewer
  than 256 \<open>_\<close>, does not end with \<open>_\<close> unless it is made of \<open>_\<close> only, and every line of
  it has at most one \<open>~\<close>, no \<open>\R\<close> written before it (or anywhere, without a \<open>~\<close>) and no
  space at its end.
\<close>

theorem fromBytes_toBytes:
  assumes anim: "getAnimate p \<in> {NONE, VSCROLL, HSCROLL}"
    and delay: "0 \<le> getDelay p" "getDelay p \<le> 255"
    and chars: "\<forall>c\<in>set (getText p). has_key c TEXT_ENCODING \<or> c = 0x7E \<or> c = 0x5F"
    and offs: "length (takeWhile (\<lambda>c. c = 0x5F) (getText p)) < 256"
    and trail: "dropWhile (\<lambda>c. c = 0x5F) (getText p) = [] \<or> last (getText p) \<noteq> 0x5F"
    and lines: "\<forall>l\<in>set (js_split NEWLINE_CHAR (getText p)). round_trip_line l"
  shows "\<exists>bytes. toBytes p = Inr bytes \<and> fromBytes bytes = Inr p"
proof -
  define t where "t = getText p"
  define k where "k = length (takeWhile (\<lambda>c. c = 0x5F) t)"
  define rest where "rest = drop k t"
  define ls where "ls = js_split NEWLINE_CHAR rest"
  define enc where "enc = (\<lambda>l. map (\<lambda>c. to_uint8 (enc1 c))
                                (js_replace RIGHT_CHAR_DECODED RIGHT_CHAR_ENCODED l))"
  define body where "body = js_join [0x0A] (map enc ls)"
  obtain ab where ab: "map_of ANIMATE_ENCODING (getAnimate p) = Some ab" "ab < 256"
      "has_key ab ANIMATE_DECODING" "the (map_of ANIMATE_DECODING ab) = getAnimate p"
    using animate_byte [OF anim] by blast
  define bytes where "bytes = [ab, k, nat (getDelay p), 0] @ body"

  have t: "t = replicate k 0x5F @ rest"
    unfolding k_def rest_def by (rule leading_run [symmetric])
  have rest_dw: "rest = dropWhile (\<lambda>c. c = 0x5F) t"
    unfolding rest_def k_def by (rule dropWhile_eq_drop [symmetric])
  have ls_sub: "set ls \<subseteq> set (js_split NEWLINE_CHAR t)"
    by (subst t) (simp add: ls_def NEWLINE_CHAR_def js_split_leading)
  have ls_ne: "ls \<noteq> []"
    unfolding ls_def by (rule js_split_nonempty)

  have toB: "toBytes p = Inr bytes"
  proof -
    have "k mod 256 = k" using offs by (simp add: k_def t_def)
    moreover have "nat (getDelay p mod 256) = nat (getDelay p)" using delay by simp
    moreover have "to_uint8 (Num (int ab)) = ab" using ab(2) by (simp add: nat_mod_distrib)
    ultimately show ?thesis
      by (simp add: toBytes_eq ab(1) bytes_def body_def enc_def ls_def rest_def k_def t_def)
  qed

  have line: "0x0A \<notin> set (enc l) \<and> (l \<noteq> [] \<longrightarrow> enc l \<noteq> [])
              \<and> js_replace RIGHT_CHAR_ENCODED RIGHT_CHAR_DECODED
                   (replace_trailing_spaces (decodeText (enc l))) = l"
    if l: "l \<in> set ls" for l
  proof -
    let ?r = "js_replace RIGHT_CHAR_DECODED RIGHT_CHAR_ENCODED l"
    have rt: "round_trip_line l" using lines l ls_sub by (auto simp: t_def)
    have "set l \<subseteq> set rest" using l unfolding ls_def by (rule js_split_subset)
    then have "set l \<subseteq> set t" by (subst t) auto
    moreover have "0x5F \<notin> set l"
      using js_split_no_sep [of l NEWLINE_CHAR rest] l by (simp add: ls_def NEWLINE_CHAR_def)
    ultimately have lc: "\<forall>c\<in>set l. has_key c TEXT_ENCODING \<or> c = 0x7E"
      using chars by (auto simp: t_def)
    have "set ?r \<subseteq> (set l - {0x7E}) \<union> {0x5C, 0x52}"
      using rt by (intro replace_tilde_chars) (simp add: round_trip_line_def)
    then have rc: "\<forall>c\<in>set ?r. has_key c TEXT_ENCODING"
      using lc escape_chars_in_table by auto
    have d: "decodeText (enc l) = ?r"
      using encoded_bytes(1) [OF rc] by (simp add: decodeText_eq enc_def)
    have "?r = [] \<or> last ?r \<noteq> 0x20"
      using rt by (intro replace_tilde_last) (simp add: round_trip_line_def)
    then have s: "replace_trailing_spaces ?r = ?r" by (rule replace_trailing_spaces_id)
    have b: "js_replace RIGHT_CHAR_ENCODED RIGHT_CHAR_DECODED ?r = l"
      using rt by (intro replace_round_trip) (simp add: round_trip_line_def)
    have "0x0A \<notin> set (enc l)"
      using encoded_bytes(2) [OF rc] by (simp add: enc_def)
    moreover have "l \<noteq> [] \<longrightarrow> enc l \<noteq> []"
      using replace_tilde_nonempty [of l] by (simp add: enc_def)
    ultimately show ?thesis using d s b by simp
  qed

  have body_end: "body = [] \<or> last body \<noteq> NEWLINE_BYTESEQ"
  proof (cases "rest = []")
    case True
    then show ?thesis
      by (simp add: body_def ls_def enc_def RIGHT_CHAR_DECODED_def js_def)
  next
    case False
    then have "last rest = last t" by (subst t) simp
    moreover have "last t \<noteq> 0x5F" using trail False by (auto simp: rest_dw t_def)
    ultimately have "last ls \<noteq> []"
      unfolding ls_def using False by (intro last_js_split) (simp_all add: NEWLINE_CHAR_def)
    moreover have "last ls \<in> set ls" using ls_ne by simp
    ultimately have ne: "enc (last ls) \<noteq> []" and no: "0x0A \<notin> set (enc (last ls))"
      using line by blast+
    have "last (map enc ls) = enc (last ls)" using ls_ne by (simp add: last_map)
    then have "last body = last (enc (last ls))"
      unfolding body_def using ne ls_ne by (subst last_js_join) simp_all
    moreover have "last (enc (last ls)) \<in> set (enc (last ls))" using ne by simp
    ultimately show ?thesis using no by (auto simp: NEWLINE_BYTESEQ_def)
  qed

  have split_body: "lines_loop (pop_newlines body) [] [] = map enc ls"
  proof -
    have "\<forall>l\<in>set (map enc ls). 0x0A \<notin> set l" using line by auto
    then have "js_split 0x0A (js_join [0x0A] (map enc ls)) = map enc ls"
      using ls_ne by (intro js_split_join) simp_all
    then show ?thesis
      unfolding pop_newlines_id [OF body_end] lines_loop_split
      by (simp add: NEWLINE_BYTESEQ_def body_def)
  qed

  have text_back: "replicate k NEWLINE_CHAR
        @ js_join [NEWLINE_CHAR]
            (map (\<lambda>line. js_replace RIGHT_CHAR_ENCODED RIGHT_CHAR_DECODED
                           (replace_trailing_spaces (decodeText line))) (map enc ls)) = t"
  proof -
    have "map (\<lambda>line. js_replace RIGHT_CHAR_ENCODED RIGHT_CHAR_DECODED
                           (replace_trailing_spaces (decodeText line))) (map enc ls) = ls"
      using line by (simp add: map_idI)
    moreover have "js_join [NEWLINE_CHAR] ls = rest"
      unfolding ls_def by (rule js_join_split)
    ultimately show ?thesis by (subst t) (simp add: NEWLINE_CHAR_def)
  qed

  have "fromBytes bytes = Inr (new_Page (getAnimate p) (int (nat (getDelay p))) t)"
    unfolding fromBytes_def Let_def
    using ab(3,4) split_body text_back by (simp add: bytes_def)
  then have "fromBytes bytes = Inr p"
    using delay by (simp add: new_Page_def t_def)
  with toB show ?thesis by blast
qed

text \<open>The theorem at a page with a leading empty line, a right-justified part and two lines.\<close>

theorem fromBytes_toBytes_witness:
  "length (takeWhile (\<lambda>c. c = 0x5F) (js ''_12:34 AZ~5_Ltd Exp'')) < 256
   \<and> (\<exists>bytes. toBytes \<lparr>getAnimate = VSCROLL, getDelay = 40, getText = js ''_12:34 AZ~5_Ltd Exp''\<rparr> = Inr bytes
          \<and> fromBytes bytes = Inr \<lparr>getAnimate = VSCROLL, getDelay = 40, getText = js ''_12:34 AZ~5_Ltd Exp''\<rparr>)"
proof -
  let ?p = "\<lparr>getAnimate = VSCROLL, getDelay = 40, getText = js ''_12:34 AZ~5_Ltd Exp''\<rparr>"
  have t: "getText ?p = [0x5F, 0x31, 0x32, 0x3A, 0x33, 0x34, 0x20, 0x41, 0x5A, 0x7E, 0x35, 0x5F,
                         0x4C, 0x74, 0x64, 0x20, 0x45, 0x78, 0x70]"
    by (simp add: js_def)
  have 1: "getAnimate ?p \<in> {NONE, VSCROLL, HSCROLL}" by simp
  have 2: "0 \<le> getDelay ?p" "getDelay ?p \<le> 255" by simp_all
  have 3: "\<forall>c\<in>set (getText ?p). has_key c TEXT_ENCODING \<or> c = 0x7E \<or> c = 0x5F"
    unfolding t by (simp add: has_key_def TEXT_ENCODING_eq)
  have 4: "length (takeWhile (\<lambda>c. c = 0x5F) (getText ?p)) < 256"
    unfolding t by simp
  have 5: "dropWhile (\<lambda>c. c = 0x5F) (getText ?p) = [] \<or> last (getText ?p) \<noteq> 0x5F"
    unfolding t by simp
  have 6: "\<forall>l\<in>set (js_split NEWLINE_CHAR (getText ?p)). round_trip_line l"
    unfolding t by (simp add: NEWLINE_CHAR_def round_trip_line_def RIGHT_CHAR_ENCODED_def)
  show ?thesis
    using fromBytes_toBytes [OF 1 2 3 4 5 6] by (simp add: js_def)
qed

text \<open>
  The page (NONE, 20, "a_") is valid and its text has only canonical bytes, and it comes
  back as (NONE, 20, "a").
\<close>

theorem fromBytes_toBytes_trailing_line:
  "toBytes \<lparr>getAnimate = NONE, getDelay = 20, getText = js ''a_''\<rparr>
     = Inr [0x00, 0, 20, 0x00, 0x61, 0x0A]
   \<and> fromBytes [0x00, 0, 20, 0x00, 0x61, 0x0A]
     = Inr \<lparr>getAnimate = NONE, getDelay = 20, getText = js ''a''\<rparr>
   \<and> js ''a'' \<noteq> js ''a_''
   \<and> has_key 0x61 TEXT_ENCODING"
proof -
  have p: "pop_newlines [0x61, 0x0A] = [0x61]"
    using pop_newlines_snoc [of "[0x61]"] pop_newlines_id [of "[0x61]"]
    by (simp add: NEWLINE_BYTESEQ_def)
  have "toBytes \<lparr>getAnimate = NONE, getDelay = 20, getText = js ''a_''\<rparr>
     = Inr [0x00, 0, 20, 0x00, 0x61, 0x0A]"
    by (simp add: toBytes_eq js_def NEWLINE_CHAR_def RIGHT_CHAR_DECODED_def RIGHT_CHAR_ENCODED_def
        enc1_def TEXT_ENCODING_eq ANIMATE_ENCODING_eq animate_consts)
  moreover have "fromBytes [0x00, 0, 20, 0x00, 0x61, 0x0A]
     = Inr \<lparr>getAnimate = NONE, getDelay = 20, getText = js ''a''\<rparr>"
    by (simp add: fromBytes_def has_key_def ANIMATE_DECODING_eq animate_consts p NEWLINE_BYTESEQ_def
        decodeText_eq dec1_def TEXT_DECODING_eq replace_trailing_spaces_def
        RIGHT_CHAR_DECODED_def RIGHT_CHAR_ENCODED_def js_def new_Page_def)
  moreover have "has_key 0x61 TEXT_ENCODING"
    by (simp add: has_key_def TEXT_ENCODING_eq)
  ultimately show ?thesis by (simp add: js_def)
qed

text \<open>
  A line that ends with spaces does not come back either: \<open>replace(/ +$/)\<close> is called
  without a replacement, and the spaces become the word "undefined".
\<close>

lemma fromBytes_trailing_space:
  "fromBytes [0x00, 0, 20, 0x00, 0x61, 0x20]
     = Inr \<lparr>getAnimate = NONE, getDelay = 20, getText = js ''aundefined''\<rparr>"
proof -
  have p: "pop_newlines [0x61, 0x20] = [0x61, 0x20]"
    by (rule pop_newlines_id) (simp add: NEWLINE_BYTESEQ_def)
  show ?thesis
    by (simp add: fromBytes_def has_key_def ANIMATE_DECODING_eq animate_consts p NEWLINE_BYTESEQ_def
        decodeText_eq dec1_def TEXT_DECODING_eq replace_trailing_spaces_def
        RIGHT_CHAR_DECODED_def RIGHT_CHAR_ENCODED_def js_def new_Page_def)
qed

end
